theory Spec2Isabelle
  imports Main "HOL-Library.Sublist"
begin

section \<open>Text primitives\<close>

text \<open>
  Python \<open>str\<close> values are modelled as \<open>string\<close>, one \<open>char\<close> per code point, so the
  model covers text whose code points are below 256. The degree sign of the reading
  grammar is the code point 0xB0.
\<close>

definition is_digit :: "char \<Rightarrow> bool" where
  "is_digit c = (c \<in> set ''0123456789'')"

text \<open>The characters \<open>str.strip()\<close> removes and \<open>\s\<close> matches (below code point 256).\<close>

definition is_space :: "char \<Rightarrow> bool" where
  "is_space c = (c \<in> set [CHR 0x09, CHR 0x0A, CHR 0x0B, CHR 0x0C, CHR 0x0D,
                           CHR 0x1C, CHR 0x1D, CHR 0x1E, CHR 0x1F, CHR 0x20,
                           CHR 0x85, CHR 0xA0])"

definition strip :: "string \<Rightarrow> string" where
  "strip s = rev (dropWhile is_space (rev (dropWhile is_space s)))"

text \<open>\<open>s.split('\n')\<close>: the empty text gives one empty line.\<close>

fun split_nl :: "string \<Rightarrow> string list" where
  "split_nl [] = [[]]"
| "split_nl (c # cs) =
     (if c = CHR 0x0A then [] # split_nl cs
      else (case split_nl cs of
              [] \<Rightarrow> [[c]]
            | l # ls \<Rightarrow> (c # l) # ls))"

text \<open>\<open>'\n'.join(ls)\<close>.\<close>

fun join_nl :: "string list \<Rightarrow> string" where
  "join_nl [] = []"
| "join_nl [l] = l"
| "join_nl (l # ls) = l @ [CHR 0x0A] @ join_nl ls"

text \<open>
  \<open>s.replace(old, new)\<close> for a non-empty \<open>old\<close>: every occurrence, left to right,
  without overlap. (The source only calls it with \<open>old\<close> the two characters of the
  Celsius unit.)
\<close>

function replace_str :: "string \<Rightarrow> string \<Rightarrow> string \<Rightarrow> string" where
  "replace_str old new [] = []"
| "replace_str old new (c # cs) =
     (if old \<noteq> [] \<and> prefix old (c # cs)
      then new @ replace_str old new (drop (length old) (c # cs))
      else c # replace_str old new cs)"
  by pat_completeness auto
termination
  by (relation "measure (\<lambda>(old, new, s). length s)") auto

definition degC :: string where
  "degC = [CHR 0xB0, CHR ''C'']"

section \<open>Regular expressions of the reading grammar\<close>

text \<open>
  The fragment of \<open>re\<close> the two record patterns use: literals, one character of a
  class, greedy \<open>+\<close> and \<open>*\<close> over a class, sequence, alternation and capturing groups.
  \<open>rmatch r s\<close> lists every way \<open>r\<close> matches a prefix of \<open>s\<close>, as the captured groups
  and the unread rest, in the order a backtracking matcher tries them (greedy
  repetition longest first, left alternative first); \<open>re.search\<close> takes the first
  result at the leftmost start position that has one.
\<close>

datatype re =
    Lit string
  | One "char \<Rightarrow> bool"
  | Plus "char \<Rightarrow> bool"
  | Star "char \<Rightarrow> bool"
  | Seq re re
  | Alt re re
  | Group re

fun rmatch :: "re \<Rightarrow> string \<Rightarrow> (string list \<times> string) list" where
  "rmatch (Lit p) s = (if prefix p s then [([], drop (length p) s)] else [])"
| "rmatch (One P) s =
     (case s of [] \<Rightarrow> [] | c # cs \<Rightarrow> if P c then [([], cs)] else [])"
| "rmatch (Plus P) s =
     map (\<lambda>k. ([], drop k s)) (rev [1 ..< Suc (length (takeWhile P s))])"
| "rmatch (Star P) s =
     map (\<lambda>k. ([], drop k s)) (rev [0 ..< Suc (length (takeWhile P s))])"
| "rmatch (Seq a b) s =
     concat (map (\<lambda>(g1, s1). map (\<lambda>(g2, s2). (g1 @ g2, s2)) (rmatch b s1)) (rmatch a s))"
| "rmatch (Alt a b) s = rmatch a s @ rmatch b s"
| "rmatch (Group a) s =
     map (\<lambda>(g, s'). (take (length s - length s') s # g, s')) (rmatch a s)"

fun search :: "re \<Rightarrow> string \<Rightarrow> string list option" where
  "search r [] = (case rmatch r [] of [] \<Rightarrow> None | (g, _) # _ \<Rightarrow> Some g)"
| "search r (c # cs) =
     (case rmatch r (c # cs) of [] \<Rightarrow> search r cs | (g, _) # _ \<Rightarrow> Some g)"

fun seqs :: "re list \<Rightarrow> re" where
  "seqs [] = Lit []"
| "seqs [r] = r"
| "seqs (r # rs) = Seq r (seqs rs)"

definition digit_or :: "char \<Rightarrow> char \<Rightarrow> bool" where
  "digit_or x c = (is_digit c \<or> c = x)"

text \<open>\<open>([\d\-]+\s[\d:]+),\s*([\d]+),\s*([\d]+),\s*\<close>: the three fields both patterns share.\<close>

definition fields_re :: "re list" where
  "fields_re =
     [Group (seqs [Plus (digit_or CHR ''-''), One is_space, Plus (digit_or CHR '':'')]),
      Lit '','', Star is_space,
      Group (Plus is_digit), Lit '','', Star is_space,
      Group (Plus is_digit), Lit '','', Star is_space]"

text \<open>\<open>((?:[\d.]+\<degree>C|N/A))\<close>, the temperature field of the live dashboard.\<close>

definition temp_re :: re where
  "temp_re = Group (Alt (Seq (Plus (digit_or CHR ''.'')) (Lit degC)) (Lit ''N/A''))"

text \<open>\<open>([\d.]+)\<degree>C\<close>, the temperature field of the earlier dashboard.\<close>

definition temp_re_mb :: "re list" where
  "temp_re_mb = [Group (Plus (digit_or CHR ''.'')), Lit degC]"

definition debug_prefix_re :: "re list" where
  "debug_prefix_re =
     [Lit ''#'', Plus is_digit, Lit '':'', Star is_space, Lit ''[DEBUG]'', Star is_space,
      Lit ''raw_timestamp='', Plus is_digit, Lit '','', Star is_space, Lit ''converted='']"

definition normal_prefix_re :: "re list" where
  "normal_prefix_re = [Lit ''#'', Plus is_digit, Lit '':'', Star is_space]"

definition debug_re :: re where
  "debug_re = seqs (debug_prefix_re @ fields_re @ [temp_re])"

definition normal_re :: re where
  "normal_re = seqs (normal_prefix_re @ fields_re @ [temp_re])"

definition debug_re_mb :: re where
  "debug_re_mb = seqs (debug_prefix_re @ fields_re @ temp_re_mb)"

definition normal_re_mb :: re where
  "normal_re_mb = seqs (normal_prefix_re @ fields_re @ temp_re_mb)"

section \<open>Readings\<close>

record reading =
  Timestamp :: string
  Value1 :: string
  Tag :: string
  Temperature_C :: string

definition BEGIN_READINGS :: string where
  "BEGIN_READINGS = ''---BEGIN_READINGS---''"

definition END_READINGS :: string where
  "END_READINGS = ''---END_READINGS---''"

text \<open>
  The body of the \<open>if debug_match: ... elif normal_match: ...\<close> of the live dashboard
  (\<open>rfid_dashboard_configure_lightsleep_multibutton_S3_live.py\<close>): the groups of the
  pattern that matched, the debug pattern first. Both patterns have four groups.
\<close>

definition line_groups :: "string \<Rightarrow> string list option" where
  "line_groups line =
     (case search debug_re line of
        Some g \<Rightarrow> Some g
      | None \<Rightarrow> search normal_re line)"

definition temp_value :: "string \<Rightarrow> string" where
  "temp_value temp = (if temp = ''N/A'' then ''N/A'' else replace_str degC [] temp)"

fun reading_of_groups :: "string list \<Rightarrow> reading option" where
  "reading_of_groups [timestamp, value1, tag, temp] =
     Some \<lparr>Timestamp = timestamp, Value1 = value1, Tag = tag,
           Temperature_C = temp_value temp\<rparr>"
| "reading_of_groups _ = None"

definition reading_of_line :: "string \<Rightarrow> reading option" where
  "reading_of_line line = (case line_groups line of None \<Rightarrow> None | Some g \<Rightarrow> reading_of_groups g)"

text \<open>The \<open>for line in lines\<close> loop of \<open>parse_readings\<close>, with its two variables.\<close>

fun parse_loop :: "bool \<Rightarrow> reading list \<Rightarrow> string list \<Rightarrow> reading list" where
  "parse_loop in_block readings [] = readings"
| "parse_loop in_block readings (line # lines) =
     (if sublist BEGIN_READINGS line then parse_loop True readings lines
      else if sublist END_READINGS line then parse_loop False readings lines
      else if in_block then
        (case reading_of_line line of
           Some r \<Rightarrow> parse_loop in_block (readings @ [r]) lines
         | None \<Rightarrow> parse_loop in_block readings lines)
      else parse_loop in_block readings lines)"

definition parse_readings :: "string \<Rightarrow> reading list" where
  "parse_readings response = parse_loop False [] (split_nl response)"

text \<open>
  \<open>parse_readings\<close> of the earlier dashboard
  (\<open>rfid_dashboard_configure_lightsleep_multibutton.py\<close>): the same loop, with patterns
  that require the Celsius unit and a group that excludes it.
\<close>

definition line_groups_mb :: "string \<Rightarrow> string list option" where
  "line_groups_mb line =
     (case search debug_re_mb line of
        Some g \<Rightarrow> Some g
      | None \<Rightarrow> search normal_re_mb line)"

fun reading_of_groups_mb :: "string list \<Rightarrow> reading option" where
  "reading_of_groups_mb [timestamp, value1, tag, temp] =
     Some \<lparr>Timestamp = timestamp, Value1 = value1, Tag = tag, Temperature_C = temp\<rparr>"
| "reading_of_groups_mb _ = None"

definition reading_of_line_mb :: "string \<Rightarrow> reading option" where
  "reading_of_line_mb line =
     (case line_groups_mb line of None \<Rightarrow> None | Some g \<Rightarrow> reading_of_groups_mb g)"

fun parse_loop_mb :: "bool \<Rightarrow> reading list \<Rightarrow> string list \<Rightarrow> reading list" where
  "parse_loop_mb in_block readings [] = readings"
| "parse_loop_mb in_block readings (line # lines) =
     (if sublist BEGIN_READINGS line then parse_loop_mb True readings lines
      else if sublist END_READINGS line then parse_loop_mb False readings lines
      else if in_block then
        (case reading_of_line_mb line of
           Some r \<Rightarrow> parse_loop_mb in_block (readings @ [r]) lines
         | None \<Rightarrow> parse_loop_mb in_block readings lines)
      else parse_loop_mb in_block readings lines)"

definition parse_readings_mb :: "string \<Rightarrow> reading list" where
  "parse_readings_mb response = parse_loop_mb False [] (split_nl response)"

text \<open>Number of capturing groups of a pattern, and patterns whose alternatives agree on it.\<close>

fun ngroups :: "re \<Rightarrow> nat" where
  "ngroups (Lit p) = 0"
| "ngroups (One P) = 0"
| "ngroups (Plus P) = 0"
| "ngroups (Star P) = 0"
| "ngroups (Seq a b) = ngroups a + ngroups b"
| "ngroups (Alt a b) = max (ngroups a) (ngroups b)"
| "ngroups (Group a) = Suc (ngroups a)"

fun alt_balanced :: "re \<Rightarrow> bool" where
  "alt_balanced (Seq a b) = (alt_balanced a \<and> alt_balanced b)"
| "alt_balanced (Alt a b) = (alt_balanced a \<and> alt_balanced b \<and> ngroups a = ngroups b)"
| "alt_balanced (Group a) = alt_balanced a"
| "alt_balanced _ = True"

text \<open>What the temperature group can capture: the literal, or digits and dots before the unit.\<close>

definition temp_shape :: "string \<Rightarrow> bool" where
  "temp_shape x = (x = ''N/A'' \<or>
     (\<exists>t. x = t @ degC \<and> t \<noteq> [] \<and> (\<forall>c\<in>set t. digit_or CHR ''.'' c)))"

text \<open>The sample lines of the reading grammar.\<close>

definition line3 :: string where
  "line3 = ''#3: 2025-07-23 05:13:05, 999, 141004265912, 24.86'' @ degC"

definition line4 :: string where
  "line4 = ''#4: 2025-07-23 05:14:05, 999, 141004265912, N/A''"

definition line200 :: string where
  "line200 = ''#200: [DEBUG] raw_timestamp=1753247585, converted=2025-07-23 05:13:05, 999, 141004265912, 24.86'' @ degC"

text \<open>A captured text with one readings block around the sample lines.\<close>

definition sample_pre :: "string list" where
  "sample_pre = [''Found 3 readings'']"

definition sample_body :: "string list" where
  "sample_body = [line3, ''[LIGHTSLEEP] woke up'', line4, line200]"

definition sample_post :: "string list" where
  "sample_post = [''OK'']"

definition sample_response :: string where
  "sample_response =
     join_nl (sample_pre @ [BEGIN_READINGS] @ sample_body @ [END_READINGS] @ sample_post)"

definition sample_readings :: "reading list" where
  "sample_readings =
     [\<lparr>Timestamp = ''2025-07-23 05:13:05'', Value1 = ''999'', Tag = ''141004265912'',
       Temperature_C = ''24.86''\<rparr>,
      \<lparr>Timestamp = ''2025-07-23 05:14:05'', Value1 = ''999'', Tag = ''141004265912'',
       Temperature_C = ''N/A''\<rparr>,
      \<lparr>Timestamp = ''2025-07-23 05:13:05'', Value1 = ''999'', Tag = ''141004265912'',
       Temperature_C = ''24.86''\<rparr>]"

section \<open>The latest readings block\<close>


definition DASHBOARD_CLOSE :: string where
  "DASHBOARD_CLOSE = ''</DASHBOARD_DATA>''"











section \<open>Marker variables\<close>










section \<open>The serial link\<close>

text \<open>
  The link is a timetable: \<open>rx\<close> holds the lines the device sends, in order, each with
  the time (in milliseconds) from which it is in the input buffer. Time passes only in
  \<open>time.sleep\<close> and between two passes of a polling loop, where it advances by
  \<open>1 + pass_ms\<close>. Every call of a port method takes the next entry of \<open>faults\<close> (none
  when the list is used up) and raises the exception it names; a closed port raises on
  every call. \<open>sent\<close> records what has been written.
\<close>

datatype exn = SerialException | OtherException | AttributeError

record link =
  is_open :: bool
  now :: nat
  pass_ms :: nat
  rx :: "(nat \<times> string) list"
  faults :: "exn option list"
  sent :: "string list"

type_synonym 'a io = "link \<Rightarrow> (exn + 'a) \<times> link"

definition io_call :: "link \<Rightarrow> exn option \<times> link" where
  "io_call l =
     (if \<not> is_open l then (Some SerialException, l)
      else (case faults l of
              [] \<Rightarrow> (None, l)
            | f # fs \<Rightarrow> (f, l\<lparr>faults := fs\<rparr>)))"

definition ser_write :: "string \<Rightarrow> unit io" where
  "ser_write data l =
     (case io_call l of
        (Some e, l') \<Rightarrow> (Inl e, l')
      | (None, l') \<Rightarrow> (Inr (), l'\<lparr>sent := sent l' @ [data]\<rparr>))"

definition ser_flush :: "unit io" where
  "ser_flush l =
     (case io_call l of
        (Some e, l') \<Rightarrow> (Inl e, l')
      | (None, l') \<Rightarrow> (Inr (), l'))"

definition reset_input_buffer :: "unit io" where
  "reset_input_buffer l =
     (case io_call l of
        (Some e, l') \<Rightarrow> (Inl e, l')
      | (None, l') \<Rightarrow> (Inr (), l'\<lparr>rx := dropWhile (\<lambda>(t, raw). t \<le> now l') (rx l')\<rparr>))"

definition in_waiting :: "bool io" where
  "in_waiting l =
     (case io_call l of
        (Some e, l') \<Rightarrow> (Inl e, l')
      | (None, l') \<Rightarrow>
          (Inr (case rx l' of [] \<Rightarrow> False | (t, raw) # rest \<Rightarrow> t \<le> now l'), l'))"

text \<open>
  \<open>ser.readline()\<close>, decoded. The loops call it only when \<open>in_waiting\<close> is set; with
  nothing in the buffer it returns the empty text after the port's read timeout of 2 s.
\<close>

definition readline :: "string io" where
  "readline l =
     (case io_call l of
        (Some e, l') \<Rightarrow> (Inl e, l')
      | (None, l') \<Rightarrow>
          (case rx l' of
             [] \<Rightarrow> (Inr [], l'\<lparr>now := now l' + 2000\<rparr>)
           | (t, raw) # rest \<Rightarrow>
               if t \<le> now l' then (Inr raw, l'\<lparr>rx := rest\<rparr>)
               else (Inr [], l'\<lparr>now := now l' + 2000\<rparr>)))"

definition sleep :: "nat \<Rightarrow> unit io" where
  "sleep d l = (Inr (), l\<lparr>now := now l + d\<rparr>)"

definition next_pass :: "link \<Rightarrow> link" where
  "next_pass l = l\<lparr>now := now l + Suc (pass_ms l)\<rparr>"

text \<open>Statements in sequence: the first exception ends the sequence.\<close>

fun io_all :: "unit io list \<Rightarrow> unit io" where
  "io_all [] l = (Inr (), l)"
| "io_all (m # ms) l =
     (case m l of
        (Inl e, l') \<Rightarrow> (Inl e, l')
      | (Inr u, l') \<Rightarrow> io_all ms l')"

definition WAKE_DELAY :: nat where
  "WAKE_DELAY = 220"

definition newline :: string where
  "newline = [CHR 0x0A]"

section \<open>Collecting a response\<close>

datatype end_reason = End_marker | Quiet_period | Hard_timeout

text \<open>
  \<open>raw = ser.readline()\<close> up to the end of \<open>if line:\<close>, the same in both collectors:
  the stripped line and the updated \<open>response\<close>, \<open>received_any\<close>, \<open>last_rx_time\<close>.
\<close>

definition read_line_step ::
  "string \<Rightarrow> bool \<Rightarrow> nat option \<Rightarrow> (string \<times> string \<times> bool \<times> nat option) io" where
  "read_line_step response received_any last_rx_time l =
     (case readline l of
        (Inl e, l') \<Rightarrow> (Inl e, l')
      | (Inr raw, l') \<Rightarrow>
          (let line = strip raw in
           if line \<noteq> []
           then (Inr (line, response @ line @ newline, True, Some (now l')), l')
           else (Inr (line, response, received_any, last_rx_time), l')))"

text \<open>\<open>received_any and last_rx_time is not None and (t - last_rx_time) > quiet_period\<close>\<close>

definition quiet_elapsed :: "bool \<Rightarrow> nat option \<Rightarrow> nat \<Rightarrow> nat \<Rightarrow> bool" where
  "quiet_elapsed received_any last_rx_time t quiet_period =
     (received_any \<and> (case last_rx_time of None \<Rightarrow> False | Some t0 \<Rightarrow> t - t0 > quiet_period))"

subsection \<open>The collector of \<open>send_command\<close>\<close>

definition expect_range :: "string \<Rightarrow> bool" where
  "expect_range command = prefix ''range '' (strip command)"

definition quiet_period_of :: "string \<Rightarrow> nat" where
  "quiet_period_of command = (if expect_range command then 1500 else 600)"

definition hard_timeout_of :: "string \<Rightarrow> nat" where
  "hard_timeout_of command = (if expect_range command then 30000 else 20000)"

text \<open>
  The \<open>if ser.in_waiting:\<close> block: whether an end marker was read, and the updated
  variables.
\<close>

definition plain_pass ::
  "bool \<Rightarrow> string \<Rightarrow> bool \<Rightarrow> nat option \<Rightarrow> (bool \<times> string \<times> bool \<times> nat option) io" where
  "plain_pass is_range response received_any last_rx_time l =
     (case in_waiting l of
        (Inl e, l1) \<Rightarrow> (Inl e, l1)
      | (Inr False, l1) \<Rightarrow> (Inr (False, response, received_any, last_rx_time), l1)
      | (Inr True, l1) \<Rightarrow>
          (case read_line_step response received_any last_rx_time l1 of
             (Inl e, l2) \<Rightarrow> (Inl e, l2)
           | (Inr (line, response', received_any', last_rx_time'), l2) \<Rightarrow>
               (Inr (sublist DASHBOARD_CLOSE line \<or> (is_range \<and> sublist END_READINGS line),
                     response', received_any', last_rx_time'), l2)))"

function collect_plain ::
  "bool \<Rightarrow> nat \<Rightarrow> nat \<Rightarrow> nat \<Rightarrow> string \<Rightarrow> bool \<Rightarrow> nat option \<Rightarrow> (string \<times> end_reason) io" where
  "collect_plain is_range quiet_period hard_timeout start_time response received_any last_rx_time l =
     (case plain_pass is_range response received_any last_rx_time l of
        (Inl e, l') \<Rightarrow> (Inl e, l')
      | (Inr (marker, response', received_any', last_rx_time'), l') \<Rightarrow>
          if marker then (Inr (response', End_marker), l')
          else if quiet_elapsed received_any' last_rx_time' (now l') quiet_period
            then (Inr (response', Quiet_period), l')
          else if now l' - start_time > hard_timeout
            then (Inr (response', Hard_timeout), l')
          else collect_plain is_range quiet_period hard_timeout start_time
                 response' received_any' last_rx_time' (next_pass l'))"
  by pat_completeness auto
termination
  apply (relation "measure (\<lambda>(is_range, quiet_period, hard_timeout, start_time, response,
                     received_any, last_rx_time, l). Suc (start_time + hard_timeout) - now l)")
   apply simp
  subgoal premises prems for is_range quiet_period hard_timeout start_time response
      received_any last_rx_time l x y
  proof -
    have io: "now (snd (io_call k)) = now k" for k
      by (simp add: io_call_def split: list.splits)
    have iw: "now (snd (in_waiting k)) = now k" for k
      using io[of k] by (auto simp: in_waiting_def split: prod.splits option.splits)
    have rl: "now k \<le> now (snd (readline k))" for k
      using io[of k] by (auto simp: readline_def split: prod.splits option.splits list.splits)
    have rs: "now k \<le> now (snd (read_line_step r a t k))" for r a t k
      using rl[of k] by (auto simp: read_line_step_def Let_def split: prod.splits sum.splits)
    have "now k \<le> now (snd (plain_pass g r a t k))" for g r a t k
      using iw[of k] rs[of "snd (in_waiting k)" r a t]
      by (auto simp: plain_pass_def split: prod.splits sum.splits bool.splits)
    from this[of l is_range response received_any last_rx_time] prems(1)[symmetric]
    have "now l \<le> now y" by simp
    with prems show ?thesis by (simp add: next_pass_def)
  qed
  done

declare collect_plain.simps [simp del]

subsection \<open>The collector of \<open>_wake_and_send_command\<close>\<close>

definition wake_quiet_period :: nat where
  "wake_quiet_period = 600"

definition wake_hard_timeout :: nat where
  "wake_hard_timeout = 10000"

text \<open>
  The \<open>if ser.in_waiting:\<close> block, which here holds the quiet-period test: whether
  that test fired, and the updated variables.
\<close>

definition fast_pass ::
  "nat \<Rightarrow> string \<Rightarrow> bool \<Rightarrow> nat option \<Rightarrow> (bool \<times> string \<times> bool \<times> nat option) io" where
  "fast_pass quiet_period response received_any last_rx_time l =
     (case in_waiting l of
        (Inl e, l1) \<Rightarrow> (Inl e, l1)
      | (Inr False, l1) \<Rightarrow> (Inr (False, response, received_any, last_rx_time), l1)
      | (Inr True, l1) \<Rightarrow>
          (case read_line_step response received_any last_rx_time l1 of
             (Inl e, l2) \<Rightarrow> (Inl e, l2)
           | (Inr (line, response', received_any', last_rx_time'), l2) \<Rightarrow>
               (Inr (quiet_elapsed received_any' last_rx_time' (now l2) quiet_period,
                     response', received_any', last_rx_time'), l2)))"

function collect_fast ::
  "nat \<Rightarrow> nat \<Rightarrow> nat \<Rightarrow> string \<Rightarrow> bool \<Rightarrow> nat option \<Rightarrow> (string \<times> end_reason) io" where
  "collect_fast quiet_period hard_timeout start_time response received_any last_rx_time l =
     (case fast_pass quiet_period response received_any last_rx_time l of
        (Inl e, l') \<Rightarrow> (Inl e, l')
      | (Inr (quiet, response', received_any', last_rx_time'), l') \<Rightarrow>
          if quiet then (Inr (response', Quiet_period), l')
          else if now l' - start_time > hard_timeout
            then (Inr (response', Hard_timeout), l')
          else collect_fast quiet_period hard_timeout start_time
                 response' received_any' last_rx_time' (next_pass l'))"
  by pat_completeness auto
termination
  apply (relation "measure (\<lambda>(quiet_period, hard_timeout, start_time, response,
                     received_any, last_rx_time, l). Suc (start_time + hard_timeout) - now l)")
   apply simp
  subgoal premises prems for quiet_period hard_timeout start_time response
      received_any last_rx_time l x y
  proof -
    have io: "now (snd (io_call k)) = now k" for k
      by (simp add: io_call_def split: list.splits)
    have iw: "now (snd (in_waiting k)) = now k" for k
      using io[of k] by (auto simp: in_waiting_def split: prod.splits option.splits)
    have rl: "now k \<le> now (snd (readline k))" for k
      using io[of k] by (auto simp: readline_def split: prod.splits option.splits list.splits)
    have rs: "now k \<le> now (snd (read_line_step r a t k))" for r a t k
      using rl[of k] by (auto simp: read_line_step_def Let_def split: prod.splits sum.splits)
    have "now k \<le> now (snd (fast_pass g r a t k))" for g r a t k
      using iw[of k] rs[of "snd (in_waiting k)" r a t]
      by (auto simp: fast_pass_def split: prod.splits sum.splits bool.splits)
    from this[of l quiet_period response received_any last_rx_time] prems(1)[symmetric]
    have "now l \<le> now y" by simp
    with prems show ?thesis by (simp add: next_pass_def)
  qed
  done

declare collect_fast.simps [simp del]

section \<open>Sending a command\<close>

text \<open>
  One pass of the \<open>for attempt in range(max_retries)\<close> loop of
  \<open>_wake_and_send_command\<close>, from the wake byte to the end of the \<open>while\<close> loop: the
  captured \<open>response\<close> and the reason the loop ended, or the exception raised on the way.
\<close>

definition wake_exchange :: "string \<Rightarrow> (string \<times> end_reason) io" where
  "wake_exchange command l =
     (case io_all [ser_write newline, ser_flush, sleep WAKE_DELAY, reset_input_buffer,
                   ser_write (command @ newline), ser_flush, sleep 100] l of
        (Inl e, l') \<Rightarrow> (Inl e, l')
      | (Inr u, l') \<Rightarrow>
          collect_fast wake_quiet_period wake_hard_timeout (now l') [] False None l')"

text \<open>
  The \<open>for\<close> loop over the attempts still to make. \<open>None\<close> is Python's \<open>None\<close>, returned
  when the loop ends without a \<open>return\<close>.
\<close>

fun wake_loop :: "string \<Rightarrow> nat \<Rightarrow> nat list \<Rightarrow> link \<Rightarrow> string option \<times> link" where
  "wake_loop command max_retries [] l = (None, l)"
| "wake_loop command max_retries (attempt # attempts) l =
     (case wake_exchange command l of
        (Inr (response, end_reason), l') \<Rightarrow>
          if strip response \<noteq> [] then (Some (strip response), l')
          else if attempt < max_retries - 1
            then wake_loop command max_retries attempts (snd (sleep 500 l'))
          else (Some [], l')
      | (Inl e, l') \<Rightarrow>
          if attempt < max_retries - 1
            then wake_loop command max_retries attempts (snd (sleep 500 l'))
          else (Some [], l'))"

text \<open>
  \<open>_wake_and_send_command(ser, command, max_retries)\<close>. Without a port (\<open>ser is None\<close>)
  the first attempt returns the empty text.
\<close>

fun wake_and_send_command ::
  "link option \<Rightarrow> string \<Rightarrow> nat \<Rightarrow> string option \<times> link option" where
  "wake_and_send_command None command max_retries =
     (if max_retries = 0 then None else Some [], None)"
| "wake_and_send_command (Some l) command max_retries =
     (case wake_loop command max_retries [0 ..< max_retries] l of
        (r, l') \<Rightarrow> (r, Some l'))"

text \<open>
  \<open>_wake_serial(ser)\<close> on an existing port: nothing on a port that is not valid; an
  exception of \<open>SERIAL_EXCEPTIONS\<close> is raised again, any other is logged and dropped.
\<close>

definition wake_serial :: "unit io" where
  "wake_serial l =
     (if \<not> is_open l then (Inr (), l)
      else (case io_all [ser_write newline, ser_flush, sleep WAKE_DELAY] l of
              (Inl OtherException, l') \<Rightarrow> (Inr (), l')
            | (Inl e, l') \<Rightarrow> (Inl e, l')
            | (Inr u, l') \<Rightarrow> (Inr (), l')))"

definition fast_commands :: "string list" where
  "fast_commands = [''dashboardmode on'', ''dashboardmode off'', ''status'', ''debugsimple'',
                    ''debug'', ''buttonmode'', ''testbutton'', ''print'']"

text \<open>
  The standard method of \<open>send_command\<close>: wake, clear the input, write the command, and
  collect with the profile of the command, from \<open>_wake_serial(ser)\<close> to the end of the
  \<open>while\<close> loop.
\<close>

definition plain_exchange :: "string \<Rightarrow> (string \<times> end_reason) io" where
  "plain_exchange command l =
     (case io_all [wake_serial, reset_input_buffer, ser_write (command @ newline), ser_flush] l of
        (Inl e, l') \<Rightarrow> (Inl e, l')
      | (Inr u, l') \<Rightarrow>
          collect_plain (expect_range command) (quiet_period_of command)
            (hard_timeout_of command) (now l') [] False None l')"

text \<open>The body of the \<open>try\<close> of \<open>send_command\<close>, on an existing port.\<close>

definition send_body :: "string \<Rightarrow> string io" where
  "send_body command l =
     (let standard = (\<lambda>l0. case plain_exchange command l0 of
                              (Inl e, l') \<Rightarrow> (Inl e, l')
                            | (Inr (response, end_reason), l') \<Rightarrow> (Inr (strip response), l'))
      in if command \<in> set fast_commands
         then (case wake_loop command 3 [0 ..< 3] l of
                 (Some response, l') \<Rightarrow>
                   if response \<noteq> [] then (Inr response, l') else standard l'
               | (None, l') \<Rightarrow> standard l')
         else standard l)"

text \<open>
  \<open>send_command(ser, command)\<close>: the text returned and the port afterwards. Without a
  port, \<open>_wake_and_send_command\<close> and \<open>_wake_serial\<close> return at once and
  \<open>ser.reset_input_buffer()\<close> raises \<open>AttributeError\<close>, which the \<open>except\<close> turns into
  the empty text, as it does every exception of the body.
\<close>

fun send_command :: "link option \<Rightarrow> string \<Rightarrow> string \<times> link option" where
  "send_command None command = ([], None)"
| "send_command (Some l) command =
     (case send_body command l of
        (Inl e, l') \<Rightarrow> ([], Some l')
      | (Inr response, l') \<Rightarrow> (response, Some l'))"

text \<open>
  An open port without faults, polled every millisecond, on which the device sends
  \<open>OK\<close> 400 ms from now and nothing after it.
\<close>

definition ok_link :: link where
  "ok_link = \<lparr>is_open = True, now = 0, pass_ms = 0, rx = [(400, ''OK'')], faults = [],
               sent = []\<rparr>"

text \<open>
  Notions for stating what the collectors do: a port that is open and has no fault
  left, whether the next line is in the input buffer, whether it is still to come after
  a given time, and the port \<open>n\<close> polling passes later.
\<close>

definition calm :: "link \<Rightarrow> bool" where
  "calm l = (is_open l \<and> faults l = [])"

definition arrived :: "link \<Rightarrow> bool" where
  "arrived l = (case rx l of [] \<Rightarrow> False | (t, raw) # rest \<Rightarrow> t \<le> now l)"

definition head_after :: "nat \<Rightarrow> link \<Rightarrow> bool" where
  "head_after T l = (case rx l of [] \<Rightarrow> True | (t, raw) # rest \<Rightarrow> T < t)"

definition advance :: "nat \<Rightarrow> link \<Rightarrow> link" where
  "advance n l = l\<lparr>now := now l + n * Suc (pass_ms l)\<rparr>"

text \<open>
  Whether an attempt gave no text (an exception, or a response that strips to nothing),
  the text it gave, and the pause between two attempts.
\<close>

definition no_text :: "exn + string \<times> end_reason \<Rightarrow> bool" where
  "no_text x = (case x of Inl e \<Rightarrow> True | Inr (response, reason) \<Rightarrow> strip response = [])"

definition text_of :: "exn + string \<times> end_reason \<Rightarrow> string" where
  "text_of x = (case x of Inl e \<Rightarrow> [] | Inr (response, reason) \<Rightarrow> strip response)"

definition backoff :: "link \<Rightarrow> link" where
  "backoff l = snd (sleep 500 l)"

text \<open>What the standard method of \<open>send_command\<close> returns after its one exchange.\<close>

definition standard_method :: "string \<Rightarrow> string io" where
  "standard_method command l =
     (case plain_exchange command l of
        (Inl e, l') \<Rightarrow> (Inl e, l')
      | (Inr (response, end_reason), l') \<Rightarrow> (Inr (strip response), l'))"

text \<open>
  A port polled every millisecond on which the device sends \<open>OK\<close> 25 s from now; the
  same port with nothing to come; and a closed port.
\<close>

definition late_link :: link where
  "late_link = \<lparr>is_open = True, now = 0, pass_ms = 0, rx = [(25000, ''OK'')],
                 faults = [], sent = []\<rparr>"

definition silent_link :: link where
  "silent_link = \<lparr>is_open = True, now = 0, pass_ms = 0, rx = [], faults = [], sent = []\<rparr>"

definition closed_link :: link where
  "closed_link = \<lparr>is_open = False, now = 0, pass_ms = 0, rx = [], faults = [], sent = []\<rparr>"

section \<open>Reading a marker variable from the port\<close>













section \<open>Properties of the reading parser\<close>

lemma rmatch_ngroups:
  "alt_balanced r \<Longrightarrow> (g, s') \<in> set (rmatch r s) \<Longrightarrow> length g = ngroups r"
proof (induction r arbitrary: g s s')
  case (Seq a b)
  then show ?case by (auto split: prod.splits) 
next
  case (Alt a b)
  then show ?case by auto
next
  case (Group a)
  then show ?case by auto
qed (auto split: list.splits if_splits)

lemma rmatch_sub:
  "(g, s') \<in> set (rmatch r s) \<Longrightarrow> suffix s' s \<and> (\<forall>x\<in>set g. sublist x s)"
proof (induction r arbitrary: g s s')
  case (Lit p)
  then show ?case by (auto split: if_splits simp: suffix_drop)
next
  case (One P)
  then show ?case by (auto split: list.splits if_splits simp: suffix_def)
next
  case (Plus P)
  then show ?case by (auto simp: suffix_drop)
next
  case (Star P)
  then show ?case by (auto simp: suffix_drop)
next
  case (Seq a b)
  from Seq.prems obtain g1 s1 g2 where
    a: "(g1, s1) \<in> set (rmatch a s)" and b: "(g2, s') \<in> set (rmatch b s1)" and g: "g = g1 @ g2"
    by auto
  from Seq.IH(1)[OF a] have a1: "suffix s1 s" and a2: "\<forall>x\<in>set g1. sublist x s" by auto
  from Seq.IH(2)[OF b] have b1: "suffix s' s1" and b2: "\<forall>x\<in>set g2. sublist x s1" by auto
  have "\<forall>x\<in>set g2. sublist x s"
    using b2 a1 by (meson sublist_order.order_trans suffix_imp_sublist)
  with a1 a2 b1 g show ?case by (auto intro: suffix_order.trans)
next
  case (Alt a b)
  then show ?case by auto
next
  case (Group a)
  from Group.prems obtain g0 where
    a: "(g0, s') \<in> set (rmatch a s)" and g: "g = take (length s - length s') s # g0"
    by auto
  from Group.IH[OF a] have "suffix s' s" and "\<forall>x\<in>set g0. sublist x s" by auto
  moreover have "sublist (take (length s - length s') s) s"
    by (simp add: prefix_imp_sublist take_is_prefix)
  ultimately show ?case using g by auto
qed

lemma search_in:
  "search r s = Some g \<Longrightarrow> \<exists>t s'. suffix t s \<and> (g, s') \<in> set (rmatch r t)"
proof (induction s)
  case Nil
  then show ?case by (auto split: list.splits)
next
  case (Cons c cs)
  show ?case
  proof (cases "rmatch r (c # cs)")
    case Nil
    with Cons.prems have "search r cs = Some g" by simp
    from Cons.IH[OF this] obtain t s' where "suffix t cs" "(g, s') \<in> set (rmatch r t)" by auto
    then show ?thesis by (auto intro: suffix_ConsI)
  next
    case (Cons p ps)
    with Cons.prems have "(g, snd p) \<in> set (rmatch r (c # cs))" by (cases p) auto
    then show ?thesis by blast
  qed
qed

lemma rmatch_seqs_last:
  "(g, s') \<in> set (rmatch (seqs (rs @ [r])) s) \<Longrightarrow>
   \<exists>g1 g2 s1. g = g1 @ g2 \<and> (g2, s') \<in> set (rmatch r s1)"
proof (induction rs arbitrary: g s)
  case Nil
  then show ?case by auto
next
  case (Cons a rs)
  obtain q qs where q: "rs @ [r] = q # qs" by (cases "rs @ [r]") auto
  from Cons.prems q obtain g1 s1 g2 where
    "(g2, s') \<in> set (rmatch (seqs (rs @ [r])) s1)" and g: "g = g1 @ g2"
    by auto
  from Cons.IH[OF this(1)] obtain h1 h2 t where "g2 = h1 @ h2" "(h2, s') \<in> set (rmatch r t)"
    by blast
  with g have "g = (g1 @ h1) @ h2 \<and> (h2, s') \<in> set (rmatch r t)" by simp
  then show ?case by blast
qed

lemma replace_degC_clean:
  "\<forall>c\<in>set t. digit_or CHR ''.'' c \<Longrightarrow> replace_str degC [] (t @ degC) = t"
proof (induction t)
  case Nil
  then show ?case by (simp add: degC_def)
next
  case (Cons c t)
  then have "c \<noteq> CHR 0xB0" by (auto simp: digit_or_def is_digit_def)
  then have "\<not> prefix degC (c # t @ degC)" by (simp add: degC_def)
  with Cons show ?case by simp
qed

lemma temp_re_shape:
  assumes "(g, s') \<in> set (rmatch temp_re s)"
  shows "\<exists>x. g = [x] \<and> (x = ''N/A'' \<or>
           (\<exists>t. x = t @ degC \<and> t \<noteq> [] \<and> (\<forall>c\<in>set t. digit_or CHR ''.'' c)))"
proof -
  let ?P = "digit_or CHR ''.''"
  let ?x = "take (length s - length s') s"
  from assms have g: "g = [?x]"
    and alt: "([], s') \<in> set (rmatch (Alt (Seq (Plus ?P) (Lit degC)) (Lit ''N/A'')) s)"
    by (auto simp: temp_re_def split: if_splits)
  from alt consider
    (num) "([], s') \<in> set (rmatch (Seq (Plus ?P) (Lit degC)) s)"
    | (na) "([], s') \<in> set (rmatch (Lit ''N/A'') s)" by auto
  then show ?thesis
  proof cases
    case na
    then have p: "prefix ''N/A'' s" and s': "s' = drop 3 s"
      by (auto split: if_splits simp: eval_nat_numeral)
    from p obtain r where "s = ''N/A'' @ r" by (auto simp: prefix_def)
    with s' have "?x = ''N/A''" by simp
    with g show ?thesis by blast
  next
    case num
    then obtain k where k: "1 \<le> k" "k \<le> length (takeWhile ?P s)"
      and p: "prefix degC (drop k s)" and s': "s' = drop 2 (drop k s)"
      by (auto split: if_splits simp: degC_def eval_nat_numeral)
    from p obtain r where r: "drop k s = degC @ r" by (auto simp: prefix_def)
    have kl: "k \<le> length s" using k(2) length_takeWhile_le[of ?P s] by linarith
    have s: "s = take k s @ degC @ r" using r by (metis append_take_drop_id)
    have "length s' = length r" using s' r by (simp add: degC_def)
    moreover have "length s = k + 2 + length r"
      using arg_cong[OF s, of length] kl by (simp add: degC_def)
    ultimately have "?x = take (k + 2) s" by simp
    also have "\<dots> = take k s @ degC"
    proof -
      have "take (k + 2) (take k s @ degC @ r) = take k s @ degC"
        using kl by (simp add: degC_def)
      with s show ?thesis by simp
    qed
    finally have x: "?x = take k s @ degC" .
    have "take k s = take k (takeWhile ?P s)"
      using k(2) by (metis append_eq_conv_conj takeWhile_dropWhile_id take_append
          diff_is_0_eq' take_0 append_Nil2)
    then have "\<forall>c\<in>set (take k s). ?P c"
      by (metis in_set_takeD set_takeWhileD)
    moreover have "take k s \<noteq> []" using k(1) kl s r by (auto simp: degC_def)
    ultimately show ?thesis using g x by blast
  qed
qed

lemma search_groups:
  assumes s: "search (seqs (rs @ [temp_re])) l = Some g"
    and bal: "alt_balanced (seqs (rs @ [temp_re]))"
    and n: "ngroups (seqs (rs @ [temp_re])) = 4"
  shows "\<exists>ts v tag temp. g = [ts, v, tag, temp] \<and> temp_shape temp \<and>
           sublist ts l \<and> sublist v l \<and> sublist tag l \<and> sublist temp l"
proof -
  from search_in[OF s] obtain t s' where
    t: "suffix t l" and m: "(g, s') \<in> set (rmatch (seqs (rs @ [temp_re])) t)" by blast
  from rmatch_ngroups[OF bal m] n have len: "length g = 4" by simp
  from rmatch_seqs_last[OF m] obtain g1 g2 s1 where
    g: "g = g1 @ g2" and "(g2, s') \<in> set (rmatch temp_re s1)" by blast
  from temp_re_shape[OF this(2)] obtain x where x: "g2 = [x]" and sh: "temp_shape x"
    unfolding temp_shape_def by blast
  from len g x have "length g1 = 3" by simp
  then obtain a b c where g1: "g1 = [a, b, c]"
    by (auto simp: length_Suc_conv eval_nat_numeral)
  from rmatch_sub[OF m] have "\<forall>y\<in>set g. sublist y t" by simp
  with t have "\<forall>y\<in>set g. sublist y l"
    by (meson sublist_order.order_trans suffix_imp_sublist)
  with g g1 x sh show ?thesis by simp
qed

lemma normal_re_groups:
  assumes "search normal_re l = Some g"
  shows "\<exists>ts v tag temp. g = [ts, v, tag, temp] \<and> temp_shape temp \<and>
           sublist ts l \<and> sublist v l \<and> sublist tag l \<and> sublist temp l"
proof -
  let ?r = "seqs ((normal_prefix_re @ fields_re) @ [temp_re])"
  have bal: "alt_balanced ?r"
    by (simp add: normal_prefix_re_def fields_re_def temp_re_def)
  have n: "ngroups ?r = 4"
    by (simp add: normal_prefix_re_def fields_re_def temp_re_def)
  from assms have "search ?r l = Some g" by (simp add: normal_re_def)
  from search_groups[OF this bal n] show ?thesis .
qed

lemma debug_re_groups:
  assumes "search debug_re l = Some g"
  shows "\<exists>ts v tag temp. g = [ts, v, tag, temp] \<and> temp_shape temp \<and>
           sublist ts l \<and> sublist v l \<and> sublist tag l \<and> sublist temp l"
proof -
  let ?r = "seqs ((debug_prefix_re @ fields_re) @ [temp_re])"
  have bal: "alt_balanced ?r"
    by (simp add: debug_prefix_re_def fields_re_def temp_re_def)
  have n: "ngroups ?r = 4"
    by (simp add: debug_prefix_re_def fields_re_def temp_re_def)
  from assms have "search ?r l = Some g" by (simp add: debug_re_def)
  from search_groups[OF this bal n] show ?thesis .
qed

lemma line_groups_shape:
  assumes "line_groups l = Some g"
  shows "\<exists>ts v tag temp. g = [ts, v, tag, temp] \<and> temp_shape temp \<and>
           sublist ts l \<and> sublist v l \<and> sublist tag l \<and> sublist temp l"
proof (cases "search debug_re l")
  case None
  with assms have "search normal_re l = Some g" by (simp add: line_groups_def)
  then show ?thesis by (rule normal_re_groups)
next
  case (Some h)
  with assms have "search debug_re l = Some g" by (simp add: line_groups_def)
  then show ?thesis by (rule debug_re_groups)
qed

lemma temp_value_shape:
  "temp_shape x \<Longrightarrow>
     (x = ''N/A'' \<and> temp_value x = ''N/A'') \<or>
     (\<exists>t. x = t @ degC \<and> temp_value x = t)"
  unfolding temp_shape_def temp_value_def
  by (auto simp: replace_degC_clean)

lemma parse_loop_outside:
  "\<forall>l\<in>set ls. \<not> sublist BEGIN_READINGS l \<Longrightarrow> parse_loop False acc ls = acc"
  by (induction ls) auto

lemma parse_loop_inside:
  "\<forall>l\<in>set body. \<not> sublist BEGIN_READINGS l \<and> \<not> sublist END_READINGS l \<Longrightarrow>
   parse_loop True acc (body @ rest) =
   parse_loop True (acc @ List.map_filter reading_of_line body) rest"
proof (induction body arbitrary: acc)
  case Nil
  then show ?case by (simp add: List.map_filter_simps)
next
  case (Cons l body)
  then show ?case by (cases "reading_of_line l") (simp_all add: List.map_filter_simps)
qed

lemma parse_block:
  assumes "\<forall>l\<in>set (pre @ post). \<not> sublist BEGIN_READINGS l"
    and "sublist BEGIN_READINGS b"
    and "\<not> sublist BEGIN_READINGS e" and "sublist END_READINGS e"
    and "\<forall>l\<in>set body. \<not> sublist BEGIN_READINGS l \<and> \<not> sublist END_READINGS l"
  shows "parse_loop False [] (pre @ [b] @ body @ [e] @ post) =
         List.map_filter reading_of_line body"
proof -
  have "parse_loop False [] (pre @ [b] @ body @ [e] @ post) =
        parse_loop False [] ([b] @ body @ [e] @ post)"
    using assms(1) by (induction pre) auto
  also have "\<dots> = parse_loop True [] (body @ [e] @ post)" using assms(2) by simp
  also have "\<dots> = parse_loop True (List.map_filter reading_of_line body) ([e] @ post)"
    using parse_loop_inside[OF assms(5), of "[]"] by simp
  also have "\<dots> = parse_loop False (List.map_filter reading_of_line body) post"
    using assms(3,4) by simp
  also have "\<dots> = List.map_filter reading_of_line body"
    using assms(1) by (simp add: parse_loop_outside)
  finally show ?thesis .
qed

lemma reading_of_line_cases:
  "(line_groups l = None \<and> reading_of_line l = None) \<or>
   (\<exists>ts v tag temp. line_groups l = Some [ts, v, tag, temp] \<and>
      sublist ts l \<and> sublist v l \<and> sublist tag l \<and> sublist temp l \<and>
      ((temp = ''N/A'' \<and> temp_value temp = ''N/A'') \<or> temp = temp_value temp @ degC) \<and>
      reading_of_line l = Some \<lparr>Timestamp = ts, Value1 = v, Tag = tag,
                                 Temperature_C = temp_value temp\<rparr>)"
proof (cases "line_groups l")
  case None
  then show ?thesis by (simp add: reading_of_line_def)
next
  case (Some g)
  from line_groups_shape[OF Some] obtain ts v tag temp where
    g: "g = [ts, v, tag, temp]" and sh: "temp_shape temp"
    and sub: "sublist ts l" "sublist v l" "sublist tag l" "sublist temp l" by blast
  from temp_value_shape[OF sh]
  have "(temp = ''N/A'' \<and> temp_value temp = ''N/A'') \<or> temp = temp_value temp @ degC"
    by auto
  with Some g sub show ?thesis by (simp add: reading_of_line_def)
qed

lemma line_groups_None:
  "line_groups l = None \<longleftrightarrow> search debug_re l = None \<and> search normal_re l = None"
  by (simp add: line_groups_def split: option.splits)

text \<open>
  Claim C5. When the lines of a captured text are a prefix without a begin marker, a
  begin line, a body of lines without markers, an end line and a rest without a begin
  marker, \<open>parse_readings\<close> returns, in order, exactly one reading for each body
  line that the debug-prefixed or the normal pattern matches; a body line that neither
  matches gives no reading and does not stop the parse. The timestamp, value and tag of
  a reading are the captured groups, which are pieces of the line, taken as text; the
  temperature is the literal \<open>N/A\<close> or the captured text without its unit.
\<close>

theorem parse_readings_one_per_matching_line:
  assumes "split_nl response = pre @ [b] @ body @ [e] @ post"
    and "\<forall>l\<in>set (pre @ post). \<not> sublist BEGIN_READINGS l"
    and "sublist BEGIN_READINGS b"
    and "\<not> sublist BEGIN_READINGS e" and "sublist END_READINGS e"
    and "\<forall>l\<in>set body. \<not> sublist BEGIN_READINGS l \<and> \<not> sublist END_READINGS l"
  shows "parse_readings response = List.map_filter reading_of_line body \<and>
         length (parse_readings response) =
           length (filter (\<lambda>l. search debug_re l \<noteq> None \<or> search normal_re l \<noteq> None) body) \<and>
         (\<forall>l\<in>set body.
            (search debug_re l = None \<and> search normal_re l = None \<and> reading_of_line l = None) \<or>
            (\<exists>ts v tag temp.
               line_groups l = Some [ts, v, tag, temp] \<and>
               sublist ts l \<and> sublist v l \<and> sublist tag l \<and> sublist temp l \<and>
               (\<exists>r. reading_of_line l = Some r \<and> Timestamp r = ts \<and> Value1 r = v \<and>
                    Tag r = tag \<and>
                    ((temp = ''N/A'' \<and> Temperature_C r = ''N/A'') \<or>
                     temp = Temperature_C r @ degC))))"
proof -
  have p: "parse_readings response = List.map_filter reading_of_line body"
    unfolding parse_readings_def assms(1)
    by (rule parse_block[OF assms(2-6)])
  have "length (List.map_filter reading_of_line xs) =
        length (filter (\<lambda>l. search debug_re l \<noteq> None \<or> search normal_re l \<noteq> None) xs)" for xs
  proof (induction xs)
    case Nil
    then show ?case by (simp add: List.map_filter_simps)
  next
    case (Cons x xs)
    then show ?case
      using reading_of_line_cases[of x] line_groups_None[of x]
      by (auto simp: List.map_filter_simps)
  qed
  with p have n: "length (parse_readings response) =
           length (filter (\<lambda>l. search debug_re l \<noteq> None \<or> search normal_re l \<noteq> None) body)"
    by simp
  have "(search debug_re l = None \<and> search normal_re l = None \<and> reading_of_line l = None) \<or>
            (\<exists>ts v tag temp.
               line_groups l = Some [ts, v, tag, temp] \<and>
               sublist ts l \<and> sublist v l \<and> sublist tag l \<and> sublist temp l \<and>
               (\<exists>r. reading_of_line l = Some r \<and> Timestamp r = ts \<and> Value1 r = v \<and>
                    Tag r = tag \<and>
                    ((temp = ''N/A'' \<and> Temperature_C r = ''N/A'') \<or>
                     temp = Temperature_C r @ degC)))" for l
    using reading_of_line_cases[of l] line_groups_None[of l] by auto
  with p n show ?thesis by blast
qed

theorem parse_readings_one_per_matching_line_witness:
  "parse_readings sample_response = sample_readings \<and>
   length (parse_readings sample_response) =
     length (filter (\<lambda>l. search debug_re l \<noteq> None \<or> search normal_re l \<noteq> None) sample_body)"
proof -
  have h1: "split_nl sample_response =
      sample_pre @ [BEGIN_READINGS] @ sample_body @ [END_READINGS] @ sample_post"
    by code_simp
  have h2: "\<forall>l\<in>set (sample_pre @ sample_post). \<not> sublist BEGIN_READINGS l" by code_simp
  have h3: "sublist BEGIN_READINGS BEGIN_READINGS" by simp
  have h4: "\<not> sublist BEGIN_READINGS END_READINGS" by code_simp
  have h5: "sublist END_READINGS END_READINGS" by simp
  have h6: "\<forall>l\<in>set sample_body. \<not> sublist BEGIN_READINGS l \<and> \<not> sublist END_READINGS l"
    by code_simp
  have v: "List.map_filter reading_of_line sample_body = sample_readings" by code_simp
  from parse_readings_one_per_matching_line[OF h1 h2 h3 h4 h5 h6]
  have a: "parse_readings sample_response = List.map_filter reading_of_line sample_body"
    and b: "length (parse_readings sample_response) =
     length (filter (\<lambda>l. search debug_re l \<noteq> None \<or> search normal_re l \<noteq> None) sample_body)"
    by blast+
  from a v have "parse_readings sample_response = sample_readings" by (rule trans)
  with b show ?thesis by (rule conjI[rotated])
qed

text \<open>
  Claim C3. The sample line with the temperature \<open>N/A\<close>, inside a block: the
  earlier dashboard's \<open>parse_readings\<close>, whose patterns require the Celsius unit,
  returns no reading for it, while the live dashboard's returns the reading with the
  temperature \<open>N/A\<close>.
\<close>

theorem parse_readings_mb_drops_na:
  "parse_readings_mb (join_nl [BEGIN_READINGS, line4, END_READINGS]) = [] \<and>
   parse_readings (join_nl [BEGIN_READINGS, line4, END_READINGS]) =
     [\<lparr>Timestamp = ''2025-07-23 05:14:05'', Value1 = ''999'', Tag = ''141004265912'',
       Temperature_C = ''N/A''\<rparr>]"
  by code_simp

section \<open>Properties of the block extraction\<close>
























section \<open>Properties of the collectors\<close>

lemma calm_io: "calm l \<Longrightarrow> io_call l = (None, l)"
  by (simp add: calm_def io_call_def)

lemma calm_in_waiting: "calm l \<Longrightarrow> in_waiting l = (Inr (arrived l), l)"
  by (simp add: in_waiting_def calm_io arrived_def)

lemma calm_next_pass: "calm l \<Longrightarrow> calm (next_pass l)"
  by (simp add: calm_def next_pass_def)

lemma head_after_not_arrived: "head_after T l \<Longrightarrow> now l \<le> T \<Longrightarrow> \<not> arrived l"
  by (auto simp: head_after_def arrived_def split: list.splits)

lemma fast_idle_step:
  assumes "calm l" and "\<not> arrived l"
  shows "collect_fast q h s r a t l =
           (if h < now l - s then (Inr (r, Hard_timeout), l)
            else collect_fast q h s r a t (next_pass l))"
proof -
  have "fast_pass q r a t l = (Inr (False, r, a, t), l)"
    using assms by (simp add: fast_pass_def calm_in_waiting)
  then show ?thesis by (subst collect_fast.simps) simp
qed

lemma plain_idle_step:
  assumes "calm l" and "\<not> arrived l"
  shows "collect_plain g q h s r a t l =
           (if quiet_elapsed a t (now l) q then (Inr (r, Quiet_period), l)
            else if h < now l - s then (Inr (r, Hard_timeout), l)
            else collect_plain g q h s r a t (next_pass l))"
proof -
  have "plain_pass g r a t l = (Inr (False, r, a, t), l)"
    using assms by (simp add: plain_pass_def calm_in_waiting)
  then show ?thesis by (subst collect_plain.simps) simp
qed

lemma advance_Suc: "advance n (next_pass l) = advance (Suc n) l"
  by (simp add: advance_def next_pass_def)

lemma advance_one: "next_pass l = advance (Suc 0) l"
  by (simp add: advance_def next_pass_def)

lemma head_after_next: "head_after T (next_pass l) = head_after T l"
  by (simp add: head_after_def next_pass_def)

lemma head_after_mono: "head_after T l \<Longrightarrow> T' \<le> T \<Longrightarrow> head_after T' l"
  by (auto simp: head_after_def split: list.splits)

lemma fast_idle:
  "calm l \<Longrightarrow> head_after (now l + n * Suc (pass_ms l)) l \<Longrightarrow>
   now l + n * Suc (pass_ms l) - s \<le> h \<Longrightarrow>
   collect_fast q h s r a t l = collect_fast q h s r a t (advance (Suc n) l)"
proof (induction n arbitrary: l)
  case 0
  then have "\<not> arrived l" by (auto dest: head_after_not_arrived[of _ l])
  with 0 show ?case by (simp add: fast_idle_step advance_one)
next
  case (Suc n)
  have na: "\<not> arrived l"
    using Suc.prems(2) by (rule head_after_not_arrived) simp
  have nh: "\<not> h < now l - s" using Suc.prems(3) by simp
  have c: "calm (next_pass l)" using Suc.prems(1) by (rule calm_next_pass)
  have t: "now (next_pass l) + n * Suc (pass_ms (next_pass l)) = now l + Suc n * Suc (pass_ms l)"
    by (simp add: next_pass_def)
  have "collect_fast q h s r a t l = collect_fast q h s r a t (next_pass l)"
    using na nh Suc.prems(1) by (simp add: fast_idle_step)
  also have "\<dots> = collect_fast q h s r a t (advance (Suc n) (next_pass l))"
  proof (rule Suc.IH[OF c])
    show "head_after (now (next_pass l) + n * Suc (pass_ms (next_pass l))) (next_pass l)"
      unfolding t head_after_next by (rule Suc.prems(2))
    show "now (next_pass l) + n * Suc (pass_ms (next_pass l)) - s \<le> h"
      unfolding t by (rule Suc.prems(3))
  qed
  finally show ?case by (simp only: advance_Suc)
qed

lemma quiet_elapsed_mono:
  "\<not> quiet_elapsed a t T q \<Longrightarrow> T' \<le> T \<Longrightarrow> \<not> quiet_elapsed a t T' q"
  by (auto simp: quiet_elapsed_def split: option.splits)

lemma plain_idle:
  "calm l \<Longrightarrow> head_after (now l + n * Suc (pass_ms l)) l \<Longrightarrow>
   now l + n * Suc (pass_ms l) - s \<le> h \<Longrightarrow>
   \<not> quiet_elapsed a t (now l + n * Suc (pass_ms l)) q \<Longrightarrow>
   collect_plain g q h s r a t l = collect_plain g q h s r a t (advance (Suc n) l)"
proof (induction n arbitrary: l)
  case 0
  then have "\<not> arrived l" by (auto dest: head_after_not_arrived[of _ l])
  with 0 show ?case by (simp add: plain_idle_step advance_one)
next
  case (Suc n)
  have na: "\<not> arrived l"
    using Suc.prems(2) by (rule head_after_not_arrived) simp
  have nh: "\<not> h < now l - s" using Suc.prems(3) by simp
  have nq: "\<not> quiet_elapsed a t (now l) q"
    using Suc.prems(4) by (rule quiet_elapsed_mono) simp
  have c: "calm (next_pass l)" using Suc.prems(1) by (rule calm_next_pass)
  have t: "now (next_pass l) + n * Suc (pass_ms (next_pass l)) = now l + Suc n * Suc (pass_ms l)"
    by (simp add: next_pass_def)
  have "collect_plain g q h s r a t l = collect_plain g q h s r a t (next_pass l)"
    using na nh nq Suc.prems(1) by (simp add: plain_idle_step)
  also have "\<dots> = collect_plain g q h s r a t (advance (Suc n) (next_pass l))"
  proof (rule Suc.IH[OF c])
    show "head_after (now (next_pass l) + n * Suc (pass_ms (next_pass l))) (next_pass l)"
      unfolding t head_after_next by (rule Suc.prems(2))
    show "now (next_pass l) + n * Suc (pass_ms (next_pass l)) - s \<le> h"
      unfolding t by (rule Suc.prems(3))
    show "\<not> quiet_elapsed a t (now (next_pass l) + n * Suc (pass_ms (next_pass l))) q"
      unfolding t by (rule Suc.prems(4))
  qed
  finally show ?case by (simp only: advance_Suc)
qed

lemma calm_readline:
  "calm l \<Longrightarrow> rx l = (t0, raw) # rest \<Longrightarrow> t0 \<le> now l \<Longrightarrow>
   readline l = (Inr raw, l\<lparr>rx := rest\<rparr>)"
  by (simp add: readline_def calm_io)

lemma fast_read_step:
  assumes "calm l" and "rx l = (t0, raw) # rest" and "t0 \<le> now l" and "strip raw \<noteq> []"
  shows "collect_fast q h s r a t l =
           (if h < now l - s then (Inr (r @ strip raw @ newline, Hard_timeout), l\<lparr>rx := rest\<rparr>)
            else collect_fast q h s (r @ strip raw @ newline) True (Some (now l))
                   (next_pass (l\<lparr>rx := rest\<rparr>)))"
proof -
  have "arrived l" using assms(2,3) by (simp add: arrived_def)
  then have "fast_pass q r a t l =
      (Inr (False, r @ strip raw @ newline, True, Some (now l)), l\<lparr>rx := rest\<rparr>)"
    using assms
    by (simp add: fast_pass_def calm_in_waiting read_line_step_def calm_readline Let_def
        quiet_elapsed_def)
  then show ?thesis by (subst collect_fast.simps) simp
qed

lemma plain_read_step:
  assumes "calm l" and "rx l = (t0, raw) # rest" and "t0 \<le> now l" and "strip raw \<noteq> []"
  shows "collect_plain g q h s r a t l =
           (if sublist DASHBOARD_CLOSE (strip raw) \<or> (g \<and> sublist END_READINGS (strip raw))
              then (Inr (r @ strip raw @ newline, End_marker), l\<lparr>rx := rest\<rparr>)
            else if h < now l - s
              then (Inr (r @ strip raw @ newline, Hard_timeout), l\<lparr>rx := rest\<rparr>)
            else collect_plain g q h s (r @ strip raw @ newline) True (Some (now l))
                   (next_pass (l\<lparr>rx := rest\<rparr>)))"
proof -
  have "arrived l" using assms(2,3) by (simp add: arrived_def)
  then have "plain_pass g r a t l =
      (Inr (sublist DASHBOARD_CLOSE (strip raw) \<or> (g \<and> sublist END_READINGS (strip raw)),
            r @ strip raw @ newline, True, Some (now l)), l\<lparr>rx := rest\<rparr>)"
    using assms
    by (simp add: plain_pass_def calm_in_waiting read_line_step_def calm_readline Let_def)
  then show ?thesis by (subst collect_plain.simps) (simp add: quiet_elapsed_def)
qed

lemma calm_ops:
  assumes "calm l"
  shows "ser_write d l = (Inr (), l\<lparr>sent := sent l @ [d]\<rparr>)"
    and "ser_flush l = (Inr (), l)"
    and "reset_input_buffer l = (Inr (), l\<lparr>rx := dropWhile (\<lambda>(t, raw). t \<le> now l) (rx l)\<rparr>)"
  using assms by (simp_all add: ser_write_def ser_flush_def reset_input_buffer_def calm_io)

lemma strip_OK: "strip ''OK'' = ''OK''"
  by (simp add: strip_def is_space_def)

lemma strip_status: "strip ''status'' = ''status''"
  by (simp add: strip_def is_space_def)

lemma wake_exchange_ok_link:
  "wake_exchange ''status'' ok_link =
     (Inr (''OK'' @ newline, Hard_timeout),
      \<lparr>is_open = True, now = 10321, pass_ms = 0, rx = [], faults = [],
       sent = [newline, ''status'' @ newline]\<rparr>)"
proof -
  let ?l1 = "\<lparr>is_open = True, now = 320, pass_ms = 0, rx = [(400, ''OK'')], faults = [],
              sent = [newline, ''status'' @ newline]\<rparr>"
  let ?l2 = "\<lparr>is_open = True, now = 400, pass_ms = 0, rx = [(400, ''OK'')], faults = [],
              sent = [newline, ''status'' @ newline]\<rparr>"
  let ?l3 = "\<lparr>is_open = True, now = 401, pass_ms = 0, rx = [], faults = [],
              sent = [newline, ''status'' @ newline]\<rparr>"
  let ?l4 = "\<lparr>is_open = True, now = 10321, pass_ms = 0, rx = [], faults = [],
              sent = [newline, ''status'' @ newline]\<rparr>"
  have pre: "io_all [ser_write newline, ser_flush, sleep WAKE_DELAY, reset_input_buffer,
                   ser_write (''status'' @ newline), ser_flush, sleep 100] ok_link = (Inr (), ?l1)"
    by (simp add: ok_link_def calm_ops calm_def sleep_def WAKE_DELAY_def)
  have a: "collect_fast 600 10000 320 [] False None ?l1 =
           collect_fast 600 10000 320 [] False None ?l2"
    using fast_idle[of ?l1 79 320 10000 600 "[]" False None]
    by (simp add: calm_def head_after_def advance_def)
  have b: "collect_fast 600 10000 320 [] False None ?l2 =
           collect_fast 600 10000 320 (''OK'' @ newline) True (Some 400) ?l3"
    using fast_read_step[of ?l2 400 "''OK''" "[]" 600 10000 320 "[]" False None]
    by (simp add: calm_def strip_OK next_pass_def)
  have c: "collect_fast 600 10000 320 (''OK'' @ newline) True (Some 400) ?l3 =
           collect_fast 600 10000 320 (''OK'' @ newline) True (Some 400) ?l4"
    using fast_idle[of ?l3 9919 320 10000 600 "''OK'' @ newline" True "Some 400"]
    by (simp add: calm_def head_after_def advance_def)
  have d: "collect_fast 600 10000 320 (''OK'' @ newline) True (Some 400) ?l4 =
           (Inr (''OK'' @ newline, Hard_timeout), ?l4)"
    using fast_idle_step[of ?l4 600 10000 320 "''OK'' @ newline" True "Some 400"]
    by (simp add: calm_def arrived_def)
  have "wake_exchange ''status'' ok_link = collect_fast 600 10000 320 [] False None ?l1"
    unfolding wake_exchange_def pre
    by (simp add: wake_quiet_period_def wake_hard_timeout_def)
  also note a
  also note b
  also note c
  also note d
  finally show ?thesis .
qed

lemma plain_exchange_ok_link:
  "plain_exchange ''status'' ok_link =
     (Inr (''OK'' @ newline, Quiet_period),
      \<lparr>is_open = True, now = 1001, pass_ms = 0, rx = [], faults = [],
       sent = [newline, ''status'' @ newline]\<rparr>)"
proof -
  let ?l1 = "\<lparr>is_open = True, now = 220, pass_ms = 0, rx = [(400, ''OK'')], faults = [],
              sent = [newline, ''status'' @ newline]\<rparr>"
  let ?l2 = "\<lparr>is_open = True, now = 400, pass_ms = 0, rx = [(400, ''OK'')], faults = [],
              sent = [newline, ''status'' @ newline]\<rparr>"
  let ?l3 = "\<lparr>is_open = True, now = 401, pass_ms = 0, rx = [], faults = [],
              sent = [newline, ''status'' @ newline]\<rparr>"
  let ?l4 = "\<lparr>is_open = True, now = 1001, pass_ms = 0, rx = [], faults = [],
              sent = [newline, ''status'' @ newline]\<rparr>"
  have w: "wake_serial ok_link = (Inr (), ok_link\<lparr>now := 220, sent := [newline]\<rparr>)"
    by (simp add: wake_serial_def ok_link_def calm_ops calm_def sleep_def WAKE_DELAY_def)
  have pre: "io_all [wake_serial, reset_input_buffer, ser_write (''status'' @ newline), ser_flush]
               ok_link = (Inr (), ?l1)"
    by (simp add: w) (simp add: ok_link_def calm_ops calm_def)
  have r: "\<not> expect_range ''status''"
    by (simp add: expect_range_def strip_status)
  have a: "collect_plain False 600 20000 220 [] False None ?l1 =
           collect_plain False 600 20000 220 [] False None ?l2"
    using plain_idle[of ?l1 179 220 20000 False None 600 False "[]"]
    by (simp add: calm_def head_after_def advance_def quiet_elapsed_def)
  have b: "collect_plain False 600 20000 220 [] False None ?l2 =
           collect_plain False 600 20000 220 (''OK'' @ newline) True (Some 400) ?l3"
    using plain_read_step[of ?l2 400 "''OK''" "[]" False 600 20000 220 "[]" False None]
    by (simp add: calm_def strip_OK next_pass_def DASHBOARD_CLOSE_def sublist_code)
  have c: "collect_plain False 600 20000 220 (''OK'' @ newline) True (Some 400) ?l3 =
           collect_plain False 600 20000 220 (''OK'' @ newline) True (Some 400) ?l4"
    using plain_idle[of ?l3 599 220 20000 True "Some 400" 600 False "''OK'' @ newline"]
    by (simp add: calm_def head_after_def advance_def quiet_elapsed_def)
  have d: "collect_plain False 600 20000 220 (''OK'' @ newline) True (Some 400) ?l4 =
           (Inr (''OK'' @ newline, Quiet_period), ?l4)"
    using plain_idle_step[of ?l4 False 600 20000 220 "''OK'' @ newline" True "Some 400"]
    by (simp add: calm_def arrived_def quiet_elapsed_def)
  have "plain_exchange ''status'' ok_link = collect_plain False 600 20000 220 [] False None ?l1"
    unfolding plain_exchange_def pre
    by (simp add: quiet_period_of_def hard_timeout_of_def r)
  also note a
  also note b
  also note c
  also note d
  finally show ?thesis .
qed

text \<open>
  Claim C1. On a port where the device sends one line 400 ms after the start and then
  stays silent, the collector of \<open>_wake_and_send_command\<close>, whose quiet-period test
  sits inside \<open>if ser.in_waiting:\<close>, runs on for ten seconds and ends on the hard
  timeout; the collector of \<open>send_command\<close>, which makes the test on every pass, ends
  on the quiet period 601 ms after the line.
\<close>

theorem fast_collector_misses_quiet_period:
  "fst (wake_exchange ''status'' ok_link) = Inr (''OK'' @ newline, Hard_timeout) \<and>
   now (snd (wake_exchange ''status'' ok_link)) = 10321 \<and>
   fst (plain_exchange ''status'' ok_link) = Inr (''OK'' @ newline, Quiet_period) \<and>
   now (snd (plain_exchange ''status'' ok_link)) = 1001"
  by (simp add: wake_exchange_ok_link plain_exchange_ok_link)


section \<open>Properties of the dispatcher\<close>

lemma wake_loop_3:
  "wake_loop command 3 [0 ..< 3] l0 =
     (let x1 = wake_exchange command l0;
          x2 = wake_exchange command (backoff (snd x1));
          x3 = wake_exchange command (backoff (snd x2))
      in if \<not> no_text (fst x1) then (Some (text_of (fst x1)), snd x1)
         else if \<not> no_text (fst x2) then (Some (text_of (fst x2)), snd x2)
         else if \<not> no_text (fst x3) then (Some (text_of (fst x3)), snd x3)
         else (Some [], snd x3))"
proof -
  have u: "[0 ..< 3] = [0, 1, 2]" by (simp add: upt_rec)
  show ?thesis
    unfolding u Let_def
    by (cases "wake_exchange command l0";
        cases "wake_exchange command (backoff (snd (wake_exchange command l0)))";
        cases "wake_exchange command (backoff (snd (wake_exchange command
                 (backoff (snd (wake_exchange command l0))))))")
       (auto simp: no_text_def text_of_def backoff_def split: sum.splits)
qed

lemma send_body_standard:
  "send_body command l =
     (if command \<in> set fast_commands
      then (case wake_loop command 3 [0 ..< 3] l of
              (Some response, l') \<Rightarrow>
                if response \<noteq> [] then (Inr response, l') else standard_method command l'
            | (None, l') \<Rightarrow> standard_method command l')
      else standard_method command l)"
  unfolding send_body_def Let_def standard_method_def by (rule refl)

lemma text_of_no_text: "\<not> no_text x \<Longrightarrow> text_of x \<noteq> []"
  by (auto simp: no_text_def text_of_def split: sum.splits)


text \<open>
  Claim C4. \<open>_wake_and_send_command\<close> with its three attempts returns the text of the
  first attempt that gave one, having paused 500 ms after each attempt without text
  before it, and leaves the port as that attempt left it; after three attempts without
  text it returns the empty text. For a fast-turnaround command \<open>send_command\<close> returns
  that text, and after three attempts without text runs the standard method once.
\<close>

theorem fast_turnaround_retry:
  "(let x1 = wake_exchange command l0;
        x2 = wake_exchange command (backoff (snd x1));
        x3 = wake_exchange command (backoff (snd x2))
    in wake_and_send_command (Some l0) command 3 =
         (if \<not> no_text (fst x1) then (Some (text_of (fst x1)), Some (snd x1))
          else if \<not> no_text (fst x2) then (Some (text_of (fst x2)), Some (snd x2))
          else if \<not> no_text (fst x3) then (Some (text_of (fst x3)), Some (snd x3))
          else (Some [], Some (snd x3))) \<and>
       (command \<in> set fast_commands \<longrightarrow>
          send_body command l0 =
            (if \<not> no_text (fst x1) then (Inr (text_of (fst x1)), snd x1)
             else if \<not> no_text (fst x2) then (Inr (text_of (fst x2)), snd x2)
             else if \<not> no_text (fst x3) then (Inr (text_of (fst x3)), snd x3)
             else standard_method command (snd x3)))) \<and>
   backoff l = l\<lparr>now := now l + 500\<rparr>"
proof -
  have b: "backoff l = l\<lparr>now := now l + 500\<rparr>" by (simp add: backoff_def sleep_def)
  show ?thesis
    unfolding Let_def
    using text_of_no_text b
    by (simp add: send_body_standard wake_loop_3 Let_def)
qed

lemma dropWhile_head_after:
  "head_after T l \<Longrightarrow> t' \<le> T \<Longrightarrow> dropWhile (\<lambda>(t, raw). t \<le> t') (rx l) = rx l"
  by (auto simp: head_after_def split: list.splits)

lemma calm_upd [simp]:
  "calm (l\<lparr>now := n\<rparr>) = calm l"
  "calm (l\<lparr>rx := r\<rparr>) = calm l"
  "calm (l\<lparr>sent := x\<rparr>) = calm l"
  by (simp_all add: calm_def)

lemma wake_prelude:
  assumes "calm l"
  shows "io_all [ser_write newline, ser_flush, sleep WAKE_DELAY, reset_input_buffer,
                 ser_write (command @ newline), ser_flush, sleep 100] l =
         (Inr (), l\<lparr>now := now l + 320,
                     rx := dropWhile (\<lambda>(t, raw). t \<le> now l + 220) (rx l),
                     sent := sent l @ [newline, command @ newline]\<rparr>)"
  using assms by (simp add: calm_ops sleep_def WAKE_DELAY_def)

lemma wake_serial_calm:
  "calm l \<Longrightarrow> wake_serial l = (Inr (), l\<lparr>sent := sent l @ [newline], now := now l + 220\<rparr>)"
  by (simp add: wake_serial_def calm_ops sleep_def WAKE_DELAY_def calm_def[of l])

lemma plain_prelude:
  assumes "calm l"
  shows "io_all [wake_serial, reset_input_buffer, ser_write (command @ newline), ser_flush] l =
         (Inr (), l\<lparr>now := now l + 220,
                     rx := dropWhile (\<lambda>(t, raw). t \<le> now l + 220) (rx l),
                     sent := sent l @ [newline, command @ newline]\<rparr>)"
  using assms by (simp add: calm_ops wake_serial_calm)

lemma collect_fast_quiet:
  assumes c: "calm l" and p: "pass_ms l = 0" and h: "head_after (s + hard + 1) l"
    and s: "now l = s"
  shows "collect_fast q hard s [] False None l =
           (Inr ([], Hard_timeout), l\<lparr>now := s + hard + 1\<rparr>)"
proof -
  let ?l' = "l\<lparr>now := s + hard + 1\<rparr>"
  have "collect_fast q hard s [] False None l =
        collect_fast q hard s [] False None (advance (Suc hard) l)"
    using c head_after_mono[OF h, of "s + hard"] by (intro fast_idle) (simp_all add: p s)
  also have "advance (Suc hard) l = ?l'" by (simp add: advance_def p s)
  also have "collect_fast q hard s [] False None ?l' = (Inr ([], Hard_timeout), ?l')"
  proof -
    have "calm ?l'" using c by simp
    moreover have "\<not> arrived ?l'"
      using h by (auto simp: arrived_def head_after_def split: list.splits)
    ultimately show ?thesis by (simp add: fast_idle_step)
  qed
  finally show ?thesis .
qed

lemma collect_plain_quiet:
  assumes c: "calm l" and p: "pass_ms l = 0" and h: "head_after (s + hard + 1) l"
    and s: "now l = s"
  shows "collect_plain g q hard s [] False None l =
           (Inr ([], Hard_timeout), l\<lparr>now := s + hard + 1\<rparr>)"
proof -
  let ?l' = "l\<lparr>now := s + hard + 1\<rparr>"
  have "collect_plain g q hard s [] False None l =
        collect_plain g q hard s [] False None (advance (Suc hard) l)"
    using c head_after_mono[OF h, of "s + hard"]
    by (intro plain_idle) (simp_all add: p s quiet_elapsed_def)
  also have "advance (Suc hard) l = ?l'" by (simp add: advance_def p s)
  also have "collect_plain g q hard s [] False None ?l' = (Inr ([], Hard_timeout), ?l')"
  proof -
    have "calm ?l'" using c by simp
    moreover have "\<not> arrived ?l'"
      using h by (auto simp: arrived_def head_after_def split: list.splits)
    ultimately show ?thesis by (simp add: plain_idle_step quiet_elapsed_def)
  qed
  finally show ?thesis .
qed

lemma wake_exchange_quiet:
  assumes c: "calm l" and p: "pass_ms l = 0" and h: "head_after (now l + 10321) l"
  shows "wake_exchange command l =
           (Inr ([], Hard_timeout),
            l\<lparr>now := now l + 10321, sent := sent l @ [newline, command @ newline]\<rparr>)"
proof -
  let ?l1 = "l\<lparr>now := now l + 320, rx := dropWhile (\<lambda>(t, raw). t \<le> now l + 220) (rx l),
               sent := sent l @ [newline, command @ newline]\<rparr>"
  have d: "dropWhile (\<lambda>(t, raw). t \<le> now l + 220) (rx l) = rx l"
    using h by (rule dropWhile_head_after) simp
  have c1: "calm ?l1" using c by simp
  have h1: "head_after (now l + 320 + 10000 + 1) ?l1"
    using h by (simp add: head_after_def d ac_simps)
  have "collect_fast 600 10000 (now l + 320) [] False None ?l1 =
          (Inr ([], Hard_timeout), ?l1\<lparr>now := now l + 320 + 10000 + 1\<rparr>)"
    using c1 _ h1 by (rule collect_fast_quiet) (simp_all add: p)
  then show ?thesis
    unfolding wake_exchange_def wake_prelude[OF c]
    by (simp add: wake_quiet_period_def wake_hard_timeout_def d)
qed

lemma standard_method_quiet:
  assumes c: "calm l" and p: "pass_ms l = 0"
    and h: "head_after (now l + 220 + hard_timeout_of command + 1) l"
  shows "standard_method command l =
           (Inr [],
            l\<lparr>now := now l + 220 + hard_timeout_of command + 1,
              sent := sent l @ [newline, command @ newline]\<rparr>)"
proof -
  let ?l1 = "l\<lparr>now := now l + 220, rx := dropWhile (\<lambda>(t, raw). t \<le> now l + 220) (rx l),
               sent := sent l @ [newline, command @ newline]\<rparr>"
  have d: "dropWhile (\<lambda>(t, raw). t \<le> now l + 220) (rx l) = rx l"
    using h by (rule dropWhile_head_after) simp
  have c1: "calm ?l1" using c by simp
  have h1: "head_after (now l + 220 + hard_timeout_of command + 1) ?l1"
    using h by (simp add: head_after_def d ac_simps)
  have "collect_plain (expect_range command) (quiet_period_of command) (hard_timeout_of command)
          (now l + 220) [] False None ?l1 =
          (Inr ([], Hard_timeout), ?l1\<lparr>now := now l + 220 + hard_timeout_of command + 1\<rparr>)"
    using c1 _ h1 by (rule collect_plain_quiet) (simp_all add: p)
  then show ?thesis
    unfolding standard_method_def plain_exchange_def plain_prelude[OF c]
    by (simp add: d strip_def)
qed

lemma wake_exchange_one_line:
  assumes c: "calm l" and p: "pass_ms l = 0" and r: "rx l = [(t0, raw)]"
    and lo: "now l + 320 < t0" and hi: "t0 < now l + 10320" and ne: "strip raw \<noteq> []"
  shows "wake_exchange command l =
           (Inr (strip raw @ newline, Hard_timeout),
            l\<lparr>now := now l + 10321, rx := [], sent := sent l @ [newline, command @ newline]\<rparr>)"
proof -
  define s where "s = now l + 320"
  define S where "S = sent l @ [newline, command @ newline]"
  define l1 where "l1 = l\<lparr>now := s, sent := S\<rparr>"
  define l2 where "l2 = l\<lparr>now := t0, sent := S\<rparr>"
  define l3 where "l3 = l\<lparr>now := Suc t0, rx := [], sent := S\<rparr>"
  define l4 where "l4 = l\<lparr>now := s + 10001, rx := [], sent := S\<rparr>"
  define resp where "resp = strip raw @ newline"
  have d: "dropWhile (\<lambda>(t, raw). t \<le> now l + 220) (rx l) = rx l"
    using lo by (simp add: r)
  have pre: "io_all [ser_write newline, ser_flush, sleep WAKE_DELAY, reset_input_buffer,
                 ser_write (command @ newline), ser_flush, sleep 100] l = (Inr (), l1)"
    unfolding wake_prelude[OF c] d by (simp add: l1_def s_def S_def)
  have c1: "calm l1" "calm l2" "calm l3" "calm l4"
    using c by (simp_all add: l1_def l2_def l3_def l4_def)
  define n where "n = t0 - s - 1"
  have n: "t0 = s + Suc n" using lo by (simp add: s_def n_def)
  have nh: "n < 9999" using hi n by (simp add: s_def)
  have a: "collect_fast 600 10000 s [] False None l1 = collect_fast 600 10000 s [] False None l2"
  proof -
    have "collect_fast 600 10000 s [] False None l1 =
          collect_fast 600 10000 s [] False None (advance (Suc n) l1)"
      using c1(1) nh by (intro fast_idle) (simp_all add: l1_def p r head_after_def n)
    moreover have "advance (Suc n) l1 = l2" by (simp add: advance_def l1_def l2_def p n)
    ultimately show ?thesis by simp
  qed
  have l3: "next_pass (l2\<lparr>rx := []\<rparr>) = l3"
    using p by (cases l) (simp add: l2_def l3_def next_pass_def)
  have rs: "collect_fast 600 10000 s [] False None l2 =
      (if 10000 < now l2 - s
       then (Inr ([] @ strip raw @ newline, Hard_timeout), l2\<lparr>rx := []\<rparr>)
       else collect_fast 600 10000 s ([] @ strip raw @ newline) True (Some (now l2))
              (next_pass (l2\<lparr>rx := []\<rparr>)))"
  proof (rule fast_read_step[OF c1(2) _ _ ne])
    show "rx l2 = (t0, raw) # []" by (simp add: l2_def r)
    show "t0 \<le> now l2" by (simp add: l2_def)
  qed
  have t2: "now l2 = t0" by (simp add: l2_def)
  have "\<not> 10000 < t0 - s" using n nh by simp
  then have b: "collect_fast 600 10000 s [] False None l2 =
           collect_fast 600 10000 s resp True (Some t0) l3"
    unfolding rs t2 l3 by (simp add: resp_def)
  define m where "m = 9998 - n"
  have m: "s + 10000 = Suc t0 + m" using nh n by (simp add: m_def)
  have cc: "collect_fast 600 10000 s resp True (Some t0) l3 =
           collect_fast 600 10000 s resp True (Some t0) l4"
  proof -
    have "collect_fast 600 10000 s resp True (Some t0) l3 =
          collect_fast 600 10000 s resp True (Some t0) (advance (Suc m) l3)"
      using c1(3) m by (intro fast_idle) (simp_all add: l3_def p head_after_def)
    moreover have "advance (Suc m) l3 = l4" using m by (simp add: advance_def l3_def l4_def p)
    ultimately show ?thesis by simp
  qed
  have e: "collect_fast 600 10000 s resp True (Some t0) l4 = (Inr (resp, Hard_timeout), l4)"
    using fast_idle_step[OF c1(4), of 600 10000 s resp True "Some t0"]
    by (simp add: l4_def arrived_def)
  have "wake_exchange command l = collect_fast 600 10000 s [] False None l1"
    unfolding wake_exchange_def pre
    by (simp add: wake_quiet_period_def wake_hard_timeout_def l1_def)
  also note a
  also note b
  also note cc
  also note e
  finally have "wake_exchange command l = (Inr (resp, Hard_timeout), l4)" .
  moreover have "l4 = l\<lparr>now := now l + 10321, rx := [],
                        sent := sent l @ [newline, command @ newline]\<rparr>"
    by (cases l) (simp add: l4_def s_def S_def)
  ultimately show ?thesis by (simp add: resp_def)
qed

lemma no_text_empty: "no_text (Inr ([], reason))"
  by (simp add: no_text_def strip_def)

lemma text_OK:
  "\<not> no_text (Inr (strip ''OK'' @ newline, reason)) \<and>
   text_of (Inr (strip ''OK'' @ newline, reason)) = ''OK''"
  by (simp add: no_text_def text_of_def strip_OK) (simp add: strip_def is_space_def newline_def)

lemma status_fast: "''status'' \<in> set fast_commands"
  by (simp add: fast_commands_def)

theorem fast_turnaround_retry_witness:
  "fst (send_body ''status'' late_link) = Inr ''OK'' \<and>
   sent (snd (send_body ''status'' late_link)) =
     [newline, ''status'' @ newline, newline, ''status'' @ newline,
      newline, ''status'' @ newline] \<and>
   now (snd (send_body ''status'' late_link)) = 31963 \<and>
   fst (send_body ''status'' silent_link) = Inr [] \<and>
   sent (snd (send_body ''status'' silent_link)) =
     [newline, ''status'' @ newline, newline, ''status'' @ newline,
      newline, ''status'' @ newline, newline, ''status'' @ newline]"
proof -
  let ?S = "[newline, ''status'' @ newline]"
  define L1 where "L1 = late_link\<lparr>now := now late_link + 10321, sent := sent late_link @ ?S\<rparr>"
  define L2 where "L2 = (backoff L1)\<lparr>now := now (backoff L1) + 10321,
                                    sent := sent (backoff L1) @ ?S\<rparr>"
  define L3 where "L3 = (backoff L2)\<lparr>now := now (backoff L2) + 10321, rx := [],
                                    sent := sent (backoff L2) @ ?S\<rparr>"
  have E1: "wake_exchange ''status'' late_link = (Inr ([], Hard_timeout), L1)"
    unfolding L1_def
    by (rule wake_exchange_quiet) (simp_all add: late_link_def calm_def head_after_def)
  have E2: "wake_exchange ''status'' (backoff L1) = (Inr ([], Hard_timeout), L2)"
    unfolding L2_def
    by (rule wake_exchange_quiet)
       (simp_all add: L1_def backoff_def sleep_def late_link_def calm_def head_after_def)
  have E3: "wake_exchange ''status'' (backoff L2) =
              (Inr (strip ''OK'' @ newline, Hard_timeout), L3)"
    unfolding L3_def
    by (rule wake_exchange_one_line[of _ 25000 "''OK''"])
       (simp_all add: L2_def L1_def backoff_def sleep_def late_link_def calm_def strip_OK)
  have "send_body ''status'' late_link =
          (if \<not> no_text (fst (wake_exchange ''status'' late_link))
           then (Inr (text_of (fst (wake_exchange ''status'' late_link))),
                 snd (wake_exchange ''status'' late_link))
           else if \<not> no_text (fst (wake_exchange ''status''
                       (backoff (snd (wake_exchange ''status'' late_link)))))
           then (Inr (text_of (fst (wake_exchange ''status''
                       (backoff (snd (wake_exchange ''status'' late_link)))))),
                 snd (wake_exchange ''status''
                       (backoff (snd (wake_exchange ''status'' late_link)))))
           else if \<not> no_text (fst (wake_exchange ''status''
                       (backoff (snd (wake_exchange ''status''
                          (backoff (snd (wake_exchange ''status'' late_link))))))))
           then (Inr (text_of (fst (wake_exchange ''status''
                       (backoff (snd (wake_exchange ''status''
                          (backoff (snd (wake_exchange ''status'' late_link)))))))))  ,
                 snd (wake_exchange ''status''
                       (backoff (snd (wake_exchange ''status''
                          (backoff (snd (wake_exchange ''status'' late_link))))))))
           else standard_method ''status''
                  (snd (wake_exchange ''status''
                       (backoff (snd (wake_exchange ''status''
                          (backoff (snd (wake_exchange ''status'' late_link)))))))))"
    using fast_turnaround_retry[of "''status''" late_link, unfolded Let_def] status_fast
    by blast
  then have late: "send_body ''status'' late_link = (Inr ''OK'', L3)"
    by (simp only: E1 E2 E3 fst_conv snd_conv no_text_empty text_OK simp_thms if_True if_False)
  have s3: "sent L3 = ?S @ ?S @ ?S" "now L3 = 31963"
    by (simp_all add: L3_def L2_def L1_def backoff_def sleep_def late_link_def)
  define M1 where "M1 = silent_link\<lparr>now := now silent_link + 10321,
                                     sent := sent silent_link @ ?S\<rparr>"
  define M2 where "M2 = (backoff M1)\<lparr>now := now (backoff M1) + 10321,
                                    sent := sent (backoff M1) @ ?S\<rparr>"
  define M3 where "M3 = (backoff M2)\<lparr>now := now (backoff M2) + 10321,
                                    sent := sent (backoff M2) @ ?S\<rparr>"
  define M4 where "M4 = M3\<lparr>now := now M3 + 220 + hard_timeout_of ''status'' + 1,
                            sent := sent M3 @ ?S\<rparr>"
  have F1: "wake_exchange ''status'' silent_link = (Inr ([], Hard_timeout), M1)"
    unfolding M1_def
    by (rule wake_exchange_quiet) (simp_all add: silent_link_def calm_def head_after_def)
  have F2: "wake_exchange ''status'' (backoff M1) = (Inr ([], Hard_timeout), M2)"
    unfolding M2_def
    by (rule wake_exchange_quiet)
       (simp_all add: M1_def backoff_def sleep_def silent_link_def calm_def head_after_def)
  have F3: "wake_exchange ''status'' (backoff M2) = (Inr ([], Hard_timeout), M3)"
    unfolding M3_def
    by (rule wake_exchange_quiet)
       (simp_all add: M2_def M1_def backoff_def sleep_def silent_link_def calm_def head_after_def)
  have F4: "standard_method ''status'' M3 = (Inr [], M4)"
    unfolding M4_def
    by (rule standard_method_quiet)
       (simp_all add: M3_def M2_def M1_def backoff_def sleep_def silent_link_def calm_def
          head_after_def)
  have "send_body ''status'' silent_link =
          (if \<not> no_text (fst (wake_exchange ''status'' silent_link))
           then (Inr (text_of (fst (wake_exchange ''status'' silent_link))),
                 snd (wake_exchange ''status'' silent_link))
           else if \<not> no_text (fst (wake_exchange ''status''
                       (backoff (snd (wake_exchange ''status'' silent_link)))))
           then (Inr (text_of (fst (wake_exchange ''status''
                       (backoff (snd (wake_exchange ''status'' silent_link)))))),
                 snd (wake_exchange ''status''
                       (backoff (snd (wake_exchange ''status'' silent_link)))))
           else if \<not> no_text (fst (wake_exchange ''status''
                       (backoff (snd (wake_exchange ''status''
                          (backoff (snd (wake_exchange ''status'' silent_link))))))))
           then (Inr (text_of (fst (wake_exchange ''status''
                       (backoff (snd (wake_exchange ''status''
                          (backoff (snd (wake_exchange ''status'' silent_link)))))))))  ,
                 snd (wake_exchange ''status''
                       (backoff (snd (wake_exchange ''status''
                          (backoff (snd (wake_exchange ''status'' silent_link))))))))
           else standard_method ''status''
                  (snd (wake_exchange ''status''
                       (backoff (snd (wake_exchange ''status''
                          (backoff (snd (wake_exchange ''status'' silent_link)))))))))"
    using fast_turnaround_retry[of "''status''" silent_link, unfolded Let_def] status_fast
    by blast
  then have silent: "send_body ''status'' silent_link = (Inr [], M4)"
    by (simp only: F1 F2 F3 F4 fst_conv snd_conv no_text_empty simp_thms if_True if_False)
  have s4: "sent M4 = ?S @ ?S @ ?S @ ?S"
    by (simp add: M4_def M3_def M2_def M1_def backoff_def sleep_def silent_link_def)
  show ?thesis
    unfolding late silent fst_conv snd_conv s3 s4 by simp
qed

lemma closed_io: "\<not> is_open l \<Longrightarrow> io_call l = (Some SerialException, l)"
  by (simp add: io_call_def)

lemma closed_wake_exchange:
  "\<not> is_open l \<Longrightarrow> wake_exchange command l = (Inl SerialException, l)"
  by (simp add: wake_exchange_def ser_write_def closed_io)

lemma closed_backoff: "\<not> is_open l \<Longrightarrow> \<not> is_open (backoff l)"
  by (simp add: backoff_def sleep_def)

lemma closed_standard_method:
  "\<not> is_open l \<Longrightarrow> standard_method command l = (Inl SerialException, l)"
  by (simp add: standard_method_def plain_exchange_def wake_serial_def
      reset_input_buffer_def closed_io)

lemma no_text_Inl: "no_text (Inl e)"
  by (simp add: no_text_def)

lemma closed_wake_loop:
  assumes "\<not> is_open l"
  shows "wake_loop command 3 [0 ..< 3] l = (Some [], backoff (backoff l))"
proof -
  have 1: "wake_exchange command l = (Inl SerialException, l)"
    using assms by (rule closed_wake_exchange)
  have 2: "wake_exchange command (backoff l) = (Inl SerialException, backoff l)"
    using assms by (intro closed_wake_exchange closed_backoff)
  have 3: "wake_exchange command (backoff (backoff l)) = (Inl SerialException, backoff (backoff l))"
    using assms by (intro closed_wake_exchange closed_backoff)
  show ?thesis
    by (simp add: wake_loop_3 Let_def 1 2 3 no_text_Inl)
qed

lemma closed_send_body:
  assumes "\<not> is_open l"
  shows "fst (send_body command l) = Inl SerialException"
proof (cases "command \<in> set fast_commands")
  case True
  have "\<not> is_open (backoff (backoff l))" using assms by (intro closed_backoff)
  then show ?thesis
    using True by (simp add: send_body_standard closed_wake_loop[OF assms] closed_standard_method)
next
  case False
  then show ?thesis
    using assms by (simp add: send_body_standard closed_standard_method)
qed

lemma wake_and_send_returns_text:
  "\<exists>s. fst (wake_and_send_command ser command 3) = Some s"
proof (cases ser)
  case None
  then show ?thesis by simp
next
  case (Some l)
  then show ?thesis
    by (simp add: wake_loop_3 Let_def split: prod.splits)
qed

text \<open>
  Claim C10. The collecting loops are defined by recursion on the time left to the hard
  timeout, so \<open>send_command\<close> and \<open>_wake_and_send_command\<close> give a result on every
  port and for every command. \<open>_wake_and_send_command\<close> with its three attempts always
  returns a text, the empty one when none of the attempts gave a text, whether they
  raised or not. \<open>send_command\<close> returns the empty text whenever its body raises, and
  without a port. On a closed port, where every call raises, both return the empty text.
\<close>

theorem send_command_never_raises:
  "(\<exists>s. fst (wake_and_send_command ser command 3) = Some s) \<and>
   fst (wake_and_send_command None command 3) = Some [] \<and>
   fst (send_command None command) = [] \<and>
   (fst (send_body command l) = Inl e \<longrightarrow> fst (send_command (Some l) command) = []) \<and>
   (no_text (fst (wake_exchange command l)) \<and>
    no_text (fst (wake_exchange command (backoff (snd (wake_exchange command l))))) \<and>
    no_text (fst (wake_exchange command (backoff (snd (wake_exchange command
                    (backoff (snd (wake_exchange command l)))))))) \<longrightarrow>
      fst (wake_and_send_command (Some l) command 3) = Some []) \<and>
   (\<not> is_open l \<longrightarrow>
      fst (wake_and_send_command (Some l) command 3) = Some [] \<and>
      fst (send_command (Some l) command) = [])"
proof -
  have 1: "\<exists>s. fst (wake_and_send_command ser command 3) = Some s"
    by (rule wake_and_send_returns_text)
  have 2: "fst (wake_and_send_command None command 3) = Some []" by simp
  have 3: "fst (send_command None command) = []" by simp
  have 4: "fst (send_body command l) = Inl e \<longrightarrow> fst (send_command (Some l) command) = []"
    by (auto split: prod.splits)
  have 5: "no_text (fst (wake_exchange command l)) \<and>
    no_text (fst (wake_exchange command (backoff (snd (wake_exchange command l))))) \<and>
    no_text (fst (wake_exchange command (backoff (snd (wake_exchange command
                    (backoff (snd (wake_exchange command l)))))))) \<longrightarrow>
      fst (wake_and_send_command (Some l) command 3) = Some []"
    by (simp add: wake_loop_3 Let_def split: prod.splits)
  have 6: "\<not> is_open l \<longrightarrow>
      fst (wake_and_send_command (Some l) command 3) = Some [] \<and>
      fst (send_command (Some l) command) = []"
  proof
    assume c: "\<not> is_open l"
    have "fst (wake_and_send_command (Some l) command 3) = Some []"
      by (simp add: closed_wake_loop[OF c])
    moreover have "fst (send_command (Some l) command) = []"
      using closed_send_body[OF c, of command] by (auto split: prod.splits)
    ultimately show "fst (wake_and_send_command (Some l) command 3) = Some [] \<and>
      fst (send_command (Some l) command) = []" by (rule conjI)
  qed
  from 1 2 3 4 5 6 show ?thesis by (intro conjI)
qed

theorem send_command_never_raises_witness:
  "fst (send_body ''time'' closed_link) = Inl SerialException \<and>
   fst (send_command (Some closed_link) ''time'') = [] \<and>
   fst (send_command (Some closed_link) ''status'') = [] \<and>
   fst (wake_and_send_command (Some closed_link) ''status'' 3) = Some []"
proof -
  have c: "\<not> is_open closed_link" by (simp add: closed_link_def)
  have b: "fst (send_body ''time'' closed_link) = Inl SerialException"
    using c by (rule closed_send_body)
  have x: "no_text (fst (wake_exchange ''status'' closed_link)) \<and>
    no_text (fst (wake_exchange ''status''
       (backoff (snd (wake_exchange ''status'' closed_link))))) \<and>
    no_text (fst (wake_exchange ''status'' (backoff (snd (wake_exchange ''status''
       (backoff (snd (wake_exchange ''status'' closed_link))))))))"
    using c by (simp add: closed_wake_exchange closed_backoff no_text_Inl)
  note T = send_command_never_raises[of _ _ closed_link SerialException]
  have 1: "fst (send_command (Some closed_link) ''time'') = []"
    using T[of "Some closed_link" "''time''"] b by blast
  have 2: "fst (send_command (Some closed_link) ''status'') = []"
    using T[of "Some closed_link" "''status''"] c by blast
  have 3: "fst (wake_and_send_command (Some closed_link) ''status'' 3) = Some []"
    using T[of "Some closed_link" "''status''"] x by blast
  from b 1 2 3 show ?thesis by (intro conjI)
qed







section \<open>Properties of the marker reading\<close>



















lemma after_request_eq:
  "l\<lparr>sent := sent l @ [newline], now := now l + 220,
      rx := dropWhile (\<lambda>(t, raw). t \<le> now l + 220) (rx l),
      sent := (sent l @ [newline]) @ [d], now := now l + 220 + 50\<rparr> =
   l\<lparr>now := now l + 270, rx := dropWhile (\<lambda>(t, raw). t \<le> now l + 220) (rx l),
     sent := sent l @ [newline, d]\<rparr>"
  by (cases l) simp














end
